theory Spec2Isabelle
  imports Main
begin

section \<open>Data model\<close>

text \<open>
  The storage layer of the emulator (\<^verbatim>\<open>Storage\<close> and its methods) together with the
  types it uses. Go structs are records; where two structs share a field name the
  field carries a short prefix naming its struct (\<^verbatim>\<open>Topic.Name\<close> is \<open>topic_Name\<close>,
  \<^verbatim>\<open>Subscription.Name\<close> is \<open>sub_Name\<close>, and so on).

  A \<^verbatim>\<open>time.Time\<close> is an integer count of nanoseconds since the zero time
  \<^verbatim>\<open>time.Time{}\<close>; \<^verbatim>\<open>a.Before(b)\<close> is \<open>a < b\<close> and \<^verbatim>\<open>t.Add(d)\<close> is \<open>t + d\<close> for a
  duration \<open>d\<close> in nanoseconds.
\<close>

type_synonym time = int

definition zeroTime :: time where
  "zeroTime = 0"

definition Millisecond :: int where
  "Millisecond = 1000000"

definition Second :: int where
  "Second = 1000000000"

record Topic =
  topic_Name :: string

record Subscription =
  sub_Name :: string
  sub_Topic :: string

record PubSubMessage =
  pub_Data :: string
  pub_Attributes :: "string \<rightharpoonup> string"

record Message =
  Data :: string
  Attributes :: "string \<rightharpoonup> string"
  MessageID :: string
  PublishTime :: string

record ReceivedMessage =
  recv_AckID :: string
  recv_Message :: Message

record InternalMessage =
  Message :: Message
  AckID :: string
  AckedAt :: "time option"
  DeadlineAt :: time

record Storage =
  topics :: "string \<rightharpoonup> Topic"
  subscriptions :: "string \<rightharpoonup> Subscription"
  messages :: "string \<rightharpoonup> InternalMessage list"

text \<open>
  The four sentinel errors of the storage layer, the \<^verbatim>\<open>fmt.Errorf\<close> error of
  \<^verbatim>\<open>Acknowledge\<close>, the run-time panic of \<^verbatim>\<open>make\<close> on a negative capacity, and the
  error the specification names for a lease token that matches no pending lease.
\<close>

datatype error =
    ErrTopicNotFound
  | ErrTopicAlreadyExists
  | ErrSubscriptionNotFound
  | ErrSubscriptionAlreadyExists
  | ErrNoMessagesForSubscription
  | PanicMakesliceCapOutOfRange
  | InvalidLeaseToken

section \<open>Entity registry\<close>

text \<open>
  Every method takes the storage and returns its result together with the storage it
  leaves behind, so that what a failing call does to the state is part of the model.
  The methods hold the storage's lock from entry to return, so each one is a single step
  on the state. \<^verbatim>\<open>ListTopics\<close> and \<^verbatim>\<open>ListSubscriptions\<close> only read the maps and are left out.
\<close>

definition NewStorage :: Storage where
  "NewStorage = \<lparr>topics = Map.empty, subscriptions = Map.empty, messages = Map.empty\<rparr>"

definition CreateTopic :: "Storage \<Rightarrow> string \<Rightarrow> (error + Topic) \<times> Storage" where
  "CreateTopic s name =
     (if topics s name \<noteq> None then (Inl ErrTopicAlreadyExists, s)
      else (let topic = \<lparr>topic_Name = name\<rparr>
            in (Inr topic, s\<lparr>topics := (topics s)(name \<mapsto> topic)\<rparr>)))"

definition GetTopic :: "Storage \<Rightarrow> string \<Rightarrow> (error + Topic) \<times> Storage" where
  "GetTopic s name =
     (case topics s name of
        None \<Rightarrow> (Inl ErrTopicNotFound, s)
      | Some topic \<Rightarrow> (Inr topic, s))"

definition DeleteTopic :: "Storage \<Rightarrow> string \<Rightarrow> (error + unit) \<times> Storage" where
  "DeleteTopic s name =
     (if topics s name = None then (Inl ErrTopicNotFound, s)
      else (Inr (), s\<lparr>topics := (topics s)(name := None)\<rparr>))"

definition CreateSubscription ::
  "Storage \<Rightarrow> string \<Rightarrow> string \<Rightarrow> (error + Subscription) \<times> Storage" where
  "CreateSubscription s name topicName =
     (if subscriptions s name \<noteq> None then (Inl ErrSubscriptionAlreadyExists, s)
      else if topics s topicName = None then (Inl ErrTopicNotFound, s)
      else (let subscription = \<lparr>sub_Name = name, sub_Topic = topicName\<rparr>
            in (Inr subscription,
                s\<lparr>subscriptions := (subscriptions s)(name \<mapsto> subscription),
                  messages := (messages s)(name \<mapsto> [])\<rparr>)))"

definition GetSubscription :: "Storage \<Rightarrow> string \<Rightarrow> (error + Subscription) \<times> Storage" where
  "GetSubscription s name =
     (case subscriptions s name of
        None \<Rightarrow> (Inl ErrSubscriptionNotFound, s)
      | Some subscription \<Rightarrow> (Inr subscription, s))"

definition DeleteSubscription :: "Storage \<Rightarrow> string \<Rightarrow> (error + unit) \<times> Storage" where
  "DeleteSubscription s name =
     (if subscriptions s name = None then (Inl ErrSubscriptionNotFound, s)
      else (Inr (), s\<lparr>subscriptions := (subscriptions s)(name := None),
                      messages := (messages s)(name := None)\<rparr>))"

section \<open>Delivery engine\<close>

subsection \<open>Publish\<close>

text \<open>
  \<^verbatim>\<open>Publish\<close> draws its identifiers from \<^verbatim>\<open>uuid.New()\<close> and walks the subscription map
  in the order the Go run time happens to choose. Both are inputs of the model:
  \<open>uuid k\<close> is what the \<open>k\<close>-th call of \<^verbatim>\<open>uuid.New().String()\<close> in this invocation
  returns, \<open>order\<close> is the order in which \<^verbatim>\<open>range s.subscriptions\<close> visits the keys, and
  \<open>nowStr\<close> is \<^verbatim>\<open>time.Now().Format(time.RFC3339)\<close>.

  \<open>queueOf m name\<close> is the Go read \<^verbatim>\<open>s.messages[name]\<close>: the nil slice when the key is
  absent.
\<close>

definition queueOf :: "(string \<rightharpoonup> InternalMessage list) \<Rightarrow> string \<Rightarrow> InternalMessage list" where
  "queueOf m name = (case m name of None \<Rightarrow> [] | Some q \<Rightarrow> q)"

definition newInternalMessage ::
  "PubSubMessage \<Rightarrow> string \<Rightarrow> string \<Rightarrow> string \<Rightarrow> InternalMessage" where
  "newInternalMessage pubsubMsg messageID now ackID =
     \<lparr>Message = \<lparr>Data = pub_Data pubsubMsg, Attributes = pub_Attributes pubsubMsg,
                  MessageID = messageID, PublishTime = now\<rparr>,
      AckID = ackID, AckedAt = None, DeadlineAt = zeroTime\<rparr>"

text \<open>The inner loop \<^verbatim>\<open>for i, pubsubMsg := range messages\<close> for one subscription.\<close>

fun publishToSubscription ::
  "(nat \<Rightarrow> string) \<Rightarrow> string \<Rightarrow> string list \<Rightarrow> string \<Rightarrow> nat \<Rightarrow> PubSubMessage list \<Rightarrow>
   nat \<times> (string \<rightharpoonup> InternalMessage list) \<Rightarrow> nat \<times> (string \<rightharpoonup> InternalMessage list)" where
  "publishToSubscription uuid now messageIDs subName i [] (c, m) = (c, m)"
| "publishToSubscription uuid now messageIDs subName i (pubsubMsg # rest) (c, m) =
     (let ackID = uuid c;
          internalMsg = newInternalMessage pubsubMsg (messageIDs ! i) now ackID
      in publishToSubscription uuid now messageIDs subName (Suc i) rest
           (Suc c, m(subName \<mapsto> queueOf m subName @ [internalMsg])))"

text \<open>The outer loop \<^verbatim>\<open>for _, sub := range s.subscriptions\<close>.\<close>

fun publishFanOut ::
  "(nat \<Rightarrow> string) \<Rightarrow> string \<Rightarrow> string list \<Rightarrow> string \<Rightarrow> PubSubMessage list \<Rightarrow>
   (string \<rightharpoonup> Subscription) \<Rightarrow> string list \<Rightarrow>
   nat \<times> (string \<rightharpoonup> InternalMessage list) \<Rightarrow> nat \<times> (string \<rightharpoonup> InternalMessage list)" where
  "publishFanOut uuid now messageIDs topicName msgs subs [] cm = cm"
| "publishFanOut uuid now messageIDs topicName msgs subs (k # ks) cm =
     (case subs k of
        None \<Rightarrow> publishFanOut uuid now messageIDs topicName msgs subs ks cm
      | Some sub \<Rightarrow>
          if sub_Topic sub = topicName
          then publishFanOut uuid now messageIDs topicName msgs subs ks
                 (publishToSubscription uuid now messageIDs (sub_Name sub) 0 msgs cm)
          else publishFanOut uuid now messageIDs topicName msgs subs ks cm)"

definition Publish ::
  "Storage \<Rightarrow> string \<Rightarrow> PubSubMessage list \<Rightarrow> (nat \<Rightarrow> string) \<Rightarrow> string \<Rightarrow> string list \<Rightarrow>
   (error + string list) \<times> Storage" where
  "Publish s topicName msgs uuid nowStr order =
     (if topics s topicName = None then (Inl ErrTopicNotFound, s)
      else (let messageIDs = map uuid [0..<length msgs];
                cm = publishFanOut uuid nowStr messageIDs topicName msgs (subscriptions s) order
                       (length msgs, messages s)
            in (Inr messageIDs, s\<lparr>messages := snd cm\<rparr>)))"

subsection \<open>Pull\<close>

text \<open>
  The lease granted by a pull lasts 50 ms under \<^verbatim>\<open>testing.Testing()\<close> and 10 s
  otherwise.
\<close>

definition ackDeadline :: "bool \<Rightarrow> int" where
  "ackDeadline testing = (if testing then 50 * Millisecond else 10 * Second)"

text \<open>The condition under which the loop of \<^verbatim>\<open>Pull\<close> takes a message.\<close>

definition visible :: "time \<Rightarrow> InternalMessage \<Rightarrow> bool" where
  "visible now msg \<longleftrightarrow> AckedAt msg = None \<and> DeadlineAt msg < now"

definition toReceived :: "InternalMessage \<Rightarrow> ReceivedMessage" where
  "toReceived msg = \<lparr>recv_AckID = AckID msg, recv_Message = Message msg\<rparr>"

text \<open>
  The loop of \<^verbatim>\<open>Pull\<close>: \<open>received\<close> is \<^verbatim>\<open>receivedMessages\<close> so far; the second component
  of the result is the queue with the deadlines the loop has written.

  Before the loop \<^verbatim>\<open>Pull\<close> allocates \<^verbatim>\<open>make([]ReceivedMessage, 0, maxMessages)\<close>. Go panics
  there when the capacity is negative; the deferred unlock runs and the storage is as it
  was. Memory is not modelled: an allocation with a capacity that is not negative is
  taken to succeed.
\<close>

fun pullLoop ::
  "bool \<Rightarrow> time \<Rightarrow> int \<Rightarrow> ReceivedMessage list \<Rightarrow> InternalMessage list \<Rightarrow>
   ReceivedMessage list \<times> InternalMessage list" where
  "pullLoop testing now maxMessages received [] = (received, [])"
| "pullLoop testing now maxMessages received (msg # msgs) =
     (if int (length received) \<ge> maxMessages then (received, msg # msgs)
      else if visible now msg
      then (let r = pullLoop testing now maxMessages (received @ [toReceived msg]) msgs
            in (fst r, msg\<lparr>DeadlineAt := now + ackDeadline testing\<rparr> # snd r))
      else (let r = pullLoop testing now maxMessages received msgs
            in (fst r, msg # snd r)))"

definition Pull ::
  "Storage \<Rightarrow> string \<Rightarrow> int \<Rightarrow> time \<Rightarrow> bool \<Rightarrow> (error + ReceivedMessage list) \<times> Storage" where
  "Pull s subscriptionName maxMessages now testing =
     (if subscriptions s subscriptionName = None then (Inl ErrSubscriptionNotFound, s)
      else case messages s subscriptionName of
        None \<Rightarrow> (Inr [], s)
      | Some msgs \<Rightarrow>
          if maxMessages < 0 then (Inl PanicMakesliceCapOutOfRange, s)
          else (let r = pullLoop testing now maxMessages [] msgs
                in (Inr (fst r), s\<lparr>messages := (messages s)(subscriptionName \<mapsto> snd r)\<rparr>)))"

subsection \<open>Acknowledge\<close>

text \<open>
  The loop of \<^verbatim>\<open>Acknowledge\<close>; \<^verbatim>\<open>ackIDSet[msg.AckID]\<close> is true exactly for the members of
  \<open>ackIDs\<close>. \<open>markAcked\<close> is the first statement of the loop body, the write of
  \<^verbatim>\<open>msg.AckedAt\<close> through the pointer; the result of the loop is \<^verbatim>\<open>newMessages\<close>.
\<close>

definition markAcked :: "time \<Rightarrow> string list \<Rightarrow> InternalMessage \<Rightarrow> InternalMessage" where
  "markAcked now ackIDs msg =
     (if AckID msg \<in> set ackIDs then msg\<lparr>AckedAt := Some now\<rparr> else msg)"

fun ackLoop :: "time \<Rightarrow> string list \<Rightarrow> InternalMessage list \<Rightarrow> InternalMessage list" where
  "ackLoop now ackIDs [] = []"
| "ackLoop now ackIDs (msg # msgs) =
     (let msg' = markAcked now ackIDs msg
      in if AckedAt msg' = None then msg' # ackLoop now ackIDs msgs
         else ackLoop now ackIDs msgs)"

definition Acknowledge ::
  "Storage \<Rightarrow> string \<Rightarrow> string list \<Rightarrow> time \<Rightarrow> (error + unit) \<times> Storage" where
  "Acknowledge s subscriptionName ackIDs now =
     (if subscriptions s subscriptionName = None then (Inl ErrSubscriptionNotFound, s)
      else case messages s subscriptionName of
        None \<Rightarrow> (Inl ErrNoMessagesForSubscription, s)
      | Some msgs \<Rightarrow>
          (Inr (), s\<lparr>messages := (messages s)(subscriptionName \<mapsto> ackLoop now ackIDs msgs)\<rparr>))"

subsection \<open>The pull handler\<close>


subsection \<open>ModifyAckDeadline\<close>




section \<open>Reachable states\<close>

text \<open>
  The states a storage can be in: those that calls of its methods produce from
  \<^verbatim>\<open>NewStorage()\<close>. A call of \<^verbatim>\<open>Publish\<close> visits every key of the subscription map once,
  in some order.
\<close>

inductive reachable :: "Storage \<Rightarrow> bool" where
  r_new: "reachable NewStorage"
| r_createTopic: "reachable s \<Longrightarrow> reachable (snd (CreateTopic s name))"
| r_getTopic: "reachable s \<Longrightarrow> reachable (snd (GetTopic s name))"
| r_deleteTopic: "reachable s \<Longrightarrow> reachable (snd (DeleteTopic s name))"
| r_createSubscription: "reachable s \<Longrightarrow> reachable (snd (CreateSubscription s name topicName))"
| r_getSubscription: "reachable s \<Longrightarrow> reachable (snd (GetSubscription s name))"
| r_deleteSubscription: "reachable s \<Longrightarrow> reachable (snd (DeleteSubscription s name))"
| r_publish: "reachable s \<Longrightarrow> distinct order \<Longrightarrow> set order = dom (subscriptions s) \<Longrightarrow>
     reachable (snd (Publish s topicName msgs uuid nowStr order))"
| r_pull: "reachable s \<Longrightarrow> reachable (snd (Pull s name maxMessages now testing))"
| r_acknowledge: "reachable s \<Longrightarrow> reachable (snd (Acknowledge s name ackIDs now))"

section \<open>Auxiliary notions for the statements\<close>

text \<open>
  \<open>boundTo subs topicName k\<close>: the key \<open>k\<close> holds a subscription whose topic is
  \<open>topicName\<close>. \<open>tokenOffset\<close> is the number of identifiers \<^verbatim>\<open>Publish\<close> has drawn when the
  fan-out loop reaches the key \<open>name\<close>: one per message for the message identifiers, and
  one per message for every bound subscription visited before.
\<close>

definition boundTo :: "(string \<rightharpoonup> Subscription) \<Rightarrow> string \<Rightarrow> string \<Rightarrow> bool" where
  "boundTo subs topicName k =
     (case subs k of None \<Rightarrow> False | Some sub \<Rightarrow> sub_Topic sub = topicName)"

definition tokenOffset ::
  "(string \<rightharpoonup> Subscription) \<Rightarrow> string \<Rightarrow> string list \<Rightarrow> nat \<Rightarrow> string \<Rightarrow> nat" where
  "tokenOffset subs topicName order n name =
     n + n * length (filter (boundTo subs topicName) (takeWhile (\<lambda>k. k \<noteq> name) order))"

definition newLeases ::
  "(nat \<Rightarrow> string) \<Rightarrow> string \<Rightarrow> string list \<Rightarrow> nat \<Rightarrow> PubSubMessage list \<Rightarrow> InternalMessage list" where
  "newLeases uuid now messageIDs c msgs =
     map (\<lambda>j. newInternalMessage (msgs ! j) (messageIDs ! j) now (uuid (c + j))) [0..<length msgs]"



text \<open>
  The bookkeeping that the methods maintain: a subscription is registered exactly when
  it has a queue record, a subscription is stored under its own name, and every lease in
  a queue is pending.
\<close>

definition consistent :: "Storage \<Rightarrow> bool" where
  "consistent s \<longleftrightarrow>
     (\<forall>k. subscriptions s k \<noteq> None \<longleftrightarrow> messages s k \<noteq> None) \<and>
     (\<forall>k sub. subscriptions s k = Some sub \<longrightarrow> sub_Name sub = k) \<and>
     (\<forall>k q. messages s k = Some q \<longrightarrow> (\<forall>msg \<in> set q. AckedAt msg = None))"

section \<open>Example states\<close>

definition exUuid :: "nat \<Rightarrow> string" where
  "exUuid k = replicate k (CHR ''u'')"

definition exMessage :: PubSubMessage where
  "exMessage = \<lparr>pub_Data = ''dGVzdA=='', pub_Attributes = Map.empty\<rparr>"

definition stTopic :: Storage where
  "stTopic = snd (CreateTopic NewStorage ''t'')"

definition stSub :: Storage where
  "stSub = snd (CreateSubscription stTopic ''s'' ''t'')"

definition stOrphan :: Storage where
  "stOrphan = snd (DeleteTopic stSub ''t'')"

definition stPublished :: Storage where
  "stPublished = snd (Publish stSub ''t'' [exMessage] exUuid ''2026-01-01T00:00:00Z'' [''s''])"

definition stPulled :: Storage where
  "stPulled = snd (Pull stPublished ''s'' 1 1 True)"

definition stTwoSubs :: Storage where
  "stTwoSubs = snd (CreateSubscription stSub ''r'' ''t'')"

section \<open>Lemmas about the pull loop\<close>







section \<open>Pull\<close>









lemma stSub_simps:
  "subscriptions stSub ''s'' = Some \<lparr>sub_Name = ''s'', sub_Topic = ''t''\<rparr>"
  "messages stSub ''s'' = Some []"
  "topics stSub ''t'' = Some \<lparr>topic_Name = ''t''\<rparr>"
  by (simp_all add: stSub_def stTopic_def CreateSubscription_def CreateTopic_def NewStorage_def Let_def)




lemma stPublished_simps:
  "subscriptions stPublished ''s'' = Some \<lparr>sub_Name = ''s'', sub_Topic = ''t''\<rparr>"
  "messages stPublished ''s'' = Some [newInternalMessage exMessage [] ''2026-01-01T00:00:00Z'' ''u'']"
  by (simp_all add: stPublished_def Publish_def stSub_simps Let_def exUuid_def queueOf_def
      stSub_def stTopic_def CreateSubscription_def CreateTopic_def NewStorage_def)

lemma stPulled_simps:
  "subscriptions stPulled ''s'' = Some \<lparr>sub_Name = ''s'', sub_Topic = ''t''\<rparr>"
  "messages stPulled ''s'' =
     Some [(newInternalMessage exMessage [] ''2026-01-01T00:00:00Z'' ''u'')\<lparr>DeadlineAt := 50000001\<rparr>]"
  by (simp_all add: stPulled_def Pull_def stPublished_simps Let_def visible_def
      newInternalMessage_def zeroTime_def ackDeadline_def Millisecond_def)






section \<open>Registry operations\<close>

text \<open>
  Claim C7, as amended. \<^verbatim>\<open>CreateSubscription\<close> checks the subscription name first: when
  the name is already registered it fails with \<open>ErrSubscriptionAlreadyExists\<close>, whether
  or not the topic is registered. Otherwise, when the topic is not registered it fails
  with \<open>ErrTopicNotFound\<close>. A failing call leaves the storage unchanged. Otherwise it
  registers the subscription, bound to the topic, with an empty queue, and changes
  nothing else.
\<close>

theorem CreateSubscription_checks:
  "(subscriptions s name \<noteq> None \<longrightarrow>
      CreateSubscription s name topicName = (Inl ErrSubscriptionAlreadyExists, s)) \<and>
   (subscriptions s name = None \<and> topics s topicName = None \<longrightarrow>
      CreateSubscription s name topicName = (Inl ErrTopicNotFound, s)) \<and>
   (subscriptions s name = None \<and> topics s topicName \<noteq> None \<longrightarrow>
      fst (CreateSubscription s name topicName) = Inr \<lparr>sub_Name = name, sub_Topic = topicName\<rparr> \<and>
      subscriptions (snd (CreateSubscription s name topicName)) name =
        Some \<lparr>sub_Name = name, sub_Topic = topicName\<rparr> \<and>
      messages (snd (CreateSubscription s name topicName)) name = Some [] \<and>
      topics (snd (CreateSubscription s name topicName)) = topics s \<and>
      (\<forall>other. other \<noteq> name \<longrightarrow>
         subscriptions (snd (CreateSubscription s name topicName)) other = subscriptions s other \<and>
         messages (snd (CreateSubscription s name topicName)) other = messages s other))"
  by (simp add: CreateSubscription_def Let_def)

lemma stOrphan_simps:
  "subscriptions stOrphan ''s'' = Some \<lparr>sub_Name = ''s'', sub_Topic = ''t''\<rparr>"
  "messages stOrphan ''s'' = Some []"
  "topics stOrphan ''t'' = None"
  by (simp_all add: stOrphan_def DeleteTopic_def stSub_simps)

text \<open>
  Claim C7 as stated fails where both checks would fire: in \<open>stOrphan\<close> (topic \<open>t\<close>
  created, subscription \<open>s\<close> created on it, topic \<open>t\<close> deleted) the topic is not
  registered and the subscription name is, and the call fails with
  \<open>ErrSubscriptionAlreadyExists\<close>, not \<open>ErrTopicNotFound\<close>.
\<close>

theorem CreateSubscription_TopicNotFound_counterexample:
  "topics stOrphan ''t'' = None \<and> subscriptions stOrphan ''s'' \<noteq> None \<and>
   fst (CreateSubscription stOrphan ''s'' ''t'') = Inl ErrSubscriptionAlreadyExists \<and>
   fst (CreateSubscription stOrphan ''s'' ''t'') \<noteq> Inl ErrTopicNotFound"
  by (simp add: CreateSubscription_def stOrphan_simps)

theorem CreateSubscription_checks_witness:
  "CreateSubscription stOrphan ''s'' ''t'' = (Inl ErrSubscriptionAlreadyExists, stOrphan) \<and>
   CreateSubscription stOrphan ''r'' ''t'' = (Inl ErrTopicNotFound, stOrphan) \<and>
   messages (snd (CreateSubscription stTopic ''s'' ''t'')) ''s'' = Some []"
proof -
  have a: "subscriptions stOrphan ''s'' \<noteq> None" by (simp add: stOrphan_simps)
  have b: "subscriptions stOrphan ''r'' = None \<and> topics stOrphan ''t'' = None"
    by (simp add: stOrphan_def DeleteTopic_def stSub_def CreateSubscription_def stTopic_def
        CreateTopic_def NewStorage_def Let_def)
  have c: "subscriptions stTopic ''s'' = None \<and> topics stTopic ''t'' \<noteq> None"
    by (simp add: stTopic_def CreateTopic_def NewStorage_def Let_def)
  show ?thesis
    using CreateSubscription_checks[of stOrphan "''s''" "''t''"]
      CreateSubscription_checks[of stOrphan "''r''" "''t''"]
      CreateSubscription_checks[of stTopic "''s''" "''t''"] a b c
    by simp
qed

text \<open>
  Claim C8. \<^verbatim>\<open>DeleteTopic\<close> on a registered topic \<open>t\<close> succeeds and removes the entry of
  \<open>t\<close> from the topic map and nothing else: the subscription map and the queues are the
  same. Afterwards \<^verbatim>\<open>Publish\<close> to \<open>t\<close> fails with \<open>ErrTopicNotFound\<close> and changes
  nothing, and \<^verbatim>\<open>Pull\<close> and \<^verbatim>\<open>Acknowledge\<close> on any subscription return what they return
  before the deletion and leave the subscriptions and queues they leave before it.
\<close>

theorem DeleteTopic_frame:
  assumes "topics s t \<noteq> None" and "s' = snd (DeleteTopic s t)"
  shows "fst (DeleteTopic s t) = Inr () \<and>
         topics s' = (topics s)(t := None) \<and>
         subscriptions s' = subscriptions s \<and> messages s' = messages s \<and>
         Publish s' t msgs uuid nowStr order = (Inl ErrTopicNotFound, s') \<and>
         fst (Pull s' name maxMessages now testing) = fst (Pull s name maxMessages now testing) \<and>
         snd (Pull s' name maxMessages now testing) =
           (snd (Pull s name maxMessages now testing))\<lparr>topics := topics s'\<rparr> \<and>
         fst (Acknowledge s' name ackIDs now) = fst (Acknowledge s name ackIDs now) \<and>
         snd (Acknowledge s' name ackIDs now) =
           (snd (Acknowledge s name ackIDs now))\<lparr>topics := topics s'\<rparr>"
  using assms
  by (simp add: DeleteTopic_def Publish_def Pull_def Acknowledge_def Let_def split: option.splits)

theorem DeleteTopic_frame_witness:
  "subscriptions stOrphan = subscriptions stSub \<and> messages stOrphan = messages stSub \<and>
   topics stOrphan ''t'' = None \<and>
   fst (Publish stOrphan ''t'' [exMessage] exUuid [] [''s'']) = Inl ErrTopicNotFound \<and>
   fst (Pull stOrphan ''s'' 1 1 True) = Inr []"
proof -
  have a: "topics stSub ''t'' \<noteq> None" by (simp add: stSub_simps)
  have p: "fst (Pull stSub ''s'' 1 1 True) = Inr []"
    by (simp add: Pull_def stSub_simps)
  show ?thesis
    using DeleteTopic_frame[OF a, of stOrphan "[exMessage]" exUuid "[]" "[''s'']" "''s''" 1 1 True]
      p
    by (simp add: stOrphan_def)
qed

section \<open>Acknowledge\<close>

lemma ackLoop_filter:
  "ackLoop now ackIDs q =
     filter (\<lambda>msg. AckedAt msg = None) (map (markAcked now ackIDs) q)"
  by (induction q) (simp_all add: Let_def)

lemma ackLoop_pending:
  assumes "\<forall>msg \<in> set q. AckedAt msg = None"
  shows "ackLoop now ackIDs q = filter (\<lambda>msg. AckID msg \<notin> set ackIDs) q"
  using assms by (induction q) (simp_all add: Let_def markAcked_def)

lemma ackLoop_all_pending:
  "\<forall>msg \<in> set (ackLoop now ackIDs q). AckedAt msg = None \<and> AckID msg \<notin> set ackIDs"
  by (induction q) (auto simp add: Let_def markAcked_def)

lemma ackLoop_idem:
  "ackLoop now2 ackIDs (ackLoop now ackIDs q) = ackLoop now ackIDs q"
proof -
  have "\<forall>msg \<in> set (ackLoop now ackIDs q). AckedAt msg = None"
    using ackLoop_all_pending by blast
  then have "ackLoop now2 ackIDs (ackLoop now ackIDs q) =
      filter (\<lambda>msg. AckID msg \<notin> set ackIDs) (ackLoop now ackIDs q)"
    by (rule ackLoop_pending)
  also have "\<dots> = ackLoop now ackIDs q"
    using ackLoop_all_pending[of now ackIDs q] by (simp add: filter_id_conv)
  finally show ?thesis .
qed

section \<open>Publish and the reachable states\<close>

lemma newLeases_Cons:
  "newLeases uuid now (mid # mids) c (p # ps) =
     newInternalMessage p mid now (uuid c) # newLeases uuid now mids (Suc c) ps"
proof -
  have "[0..<length (p # ps)] = 0 # map Suc [0..<length ps]"
    by (simp add: upt_conv_Cons map_Suc_upt del: upt_Suc)
  then show ?thesis
    by (simp add: newLeases_def comp_def del: upt_Suc)
qed

lemma newLeases_Nil: "newLeases uuid now mids c [] = []"
  by (simp add: newLeases_def)

lemma publishToSubscription_eq:
  "publishToSubscription uuid now messageIDs subName i msgs (c, m) =
     (c + length msgs,
      if msgs = [] then m
      else m(subName \<mapsto> queueOf m subName @ newLeases uuid now (drop i messageIDs) c msgs))"
  if "i + length msgs \<le> length messageIDs"
  using that
proof (induction msgs arbitrary: i c m)
  case Nil
  show ?case by simp
next
  case (Cons p ps)
  then have i: "i < length messageIDs" by simp
  then have d: "drop i messageIDs = messageIDs ! i # drop (Suc i) messageIDs"
    by (simp add: Cons_nth_drop_Suc)
  have ih: "publishToSubscription uuid now messageIDs subName (Suc i) ps (c', m') =
     (c' + length ps,
      if ps = [] then m'
      else m'(subName \<mapsto> queueOf m' subName @ newLeases uuid now (drop (Suc i) messageIDs) c' ps))"
    for c' m'
    using Cons.IH[of "Suc i" c' m'] Cons.prems by simp
  show ?case
    unfolding publishToSubscription.simps Let_def ih d newLeases_Cons
    by (auto simp add: queueOf_def newLeases_Nil fun_eq_iff)
qed

lemma publishFanOut_eq:
  assumes "\<forall>k sub. subs k = Some sub \<longrightarrow> sub_Name sub = k"
    and "distinct order" and "length msgs \<le> length messageIDs"
  shows "publishFanOut uuid now messageIDs topicName msgs subs order (c, m) =
     (c + length msgs * length (filter (boundTo subs topicName) order),
      \<lambda>name. if name \<in> set order \<and> boundTo subs topicName name \<and> msgs \<noteq> []
        then Some (queueOf m name @ newLeases uuid now messageIDs
               (c + length msgs *
                  length (filter (boundTo subs topicName) (takeWhile (\<lambda>k. k \<noteq> name) order)))
               msgs)
        else m name)"
  using assms(2)
proof (induction order arbitrary: c m)
  case Nil
  show ?case by simp
next
  case (Cons k ks)
  then have dks: "distinct ks" and kks: "k \<notin> set ks" by simp_all
  note ih = Cons.IH[OF dks]
  show ?case
  proof (cases "boundTo subs topicName k")
    case False
    then have step: "publishFanOut uuid now messageIDs topicName msgs subs (k # ks) (c, m) =
        publishFanOut uuid now messageIDs topicName msgs subs ks (c, m)"
      by (simp add: boundTo_def split: option.splits)
    show ?thesis
      unfolding step ih using False
      by (auto simp add: fun_eq_iff)
  next
    case True
    then obtain sub where sub: "subs k = Some sub" "sub_Topic sub = topicName"
      by (auto simp add: boundTo_def split: option.splits)
    then have nm: "sub_Name sub = k" using assms(1) by simp
    have step: "publishFanOut uuid now messageIDs topicName msgs subs (k # ks) (c, m) =
        publishFanOut uuid now messageIDs topicName msgs subs ks
          (c + length msgs,
           if msgs = [] then m
           else m(k \<mapsto> queueOf m k @ newLeases uuid now messageIDs c msgs))"
      using sub nm assms(3)
        publishToSubscription_eq[of 0 msgs messageIDs uuid now k c m]
      by simp
    show ?thesis
      unfolding step ih using True kks
      by (auto simp add: fun_eq_iff queueOf_def algebra_simps)
  qed
qed

lemma Publish_eq:
  assumes "topics s topicName \<noteq> None"
    and "\<forall>k sub. subscriptions s k = Some sub \<longrightarrow> sub_Name sub = k"
    and "distinct order"
  shows "Publish s topicName msgs uuid nowStr order =
     (Inr (map uuid [0..<length msgs]),
      s\<lparr>messages := \<lambda>name.
          if name \<in> set order \<and> boundTo (subscriptions s) topicName name \<and> msgs \<noteq> []
          then Some (queueOf (messages s) name @
                 newLeases uuid nowStr (map uuid [0..<length msgs])
                   (tokenOffset (subscriptions s) topicName order (length msgs) name) msgs)
          else messages s name\<rparr>)"
  unfolding tokenOffset_def
  using assms(1)
    publishFanOut_eq[OF assms(2,3), of msgs "map uuid [0..<length msgs]" uuid nowStr topicName
      "length msgs" "messages s"]
  by (simp add: Publish_def Let_def)

lemma newLeases_pending: "\<forall>msg \<in> set (newLeases uuid now mids c msgs). AckedAt msg = None"
  by (simp add: newLeases_def newInternalMessage_def)

lemma Publish_consistent:
  assumes "consistent s" and "distinct order"
  shows "consistent (snd (Publish s topicName msgs uuid nowStr order))"
proof (cases "topics s topicName = None")
  case True
  then show ?thesis using assms(1) by (simp add: Publish_def)
next
  case False
  have nm: "\<forall>k sub. subscriptions s k = Some sub \<longrightarrow> sub_Name sub = k"
    using assms(1) by (simp add: consistent_def)
  have b: "messages s k \<noteq> None" if "boundTo (subscriptions s) topicName k" for k
    using that assms(1) by (auto simp add: consistent_def boundTo_def split: option.splits)
  have p: "\<forall>msg \<in> set (queueOf (messages s) k). AckedAt msg = None" for k
    using assms(1) unfolding consistent_def queueOf_def by (cases "messages s k") auto
  show ?thesis
    unfolding Publish_eq[OF False nm assms(2)]
    using assms(1) b p newLeases_pending
    by (auto simp add: consistent_def)
qed

lemma pullLoop_pending:
  "\<forall>msg \<in> set q. AckedAt msg = None \<Longrightarrow>
   \<forall>msg \<in> set (snd (pullLoop testing now maxMessages received q)). AckedAt msg = None"
  by (induction q arbitrary: received) (simp_all add: Let_def)

lemma Pull_consistent:
  assumes "consistent s"
  shows "consistent (snd (Pull s name maxMessages now testing))"
proof (cases "subscriptions s name = None \<or> messages s name = None \<or> maxMessages < 0")
  case True
  then show ?thesis using assms by (auto simp add: Pull_def split: option.splits)
next
  case False
  then obtain q where q: "messages s name = Some q" by auto
  have "\<forall>msg \<in> set q. AckedAt msg = None"
    using assms q by (simp add: consistent_def)
  then have "\<forall>msg \<in> set (snd (pullLoop testing now maxMessages [] q)). AckedAt msg = None"
    by (rule pullLoop_pending)
  then show ?thesis
    using False q assms by (auto simp add: consistent_def Pull_def Let_def)
qed

lemma Acknowledge_consistent:
  assumes "consistent s"
  shows "consistent (snd (Acknowledge s name ackIDs now))"
  using assms ackLoop_all_pending
  by (auto simp add: consistent_def Acknowledge_def split: option.splits if_splits)

lemma reachable_consistent: "reachable s \<Longrightarrow> consistent s"
proof (induction rule: reachable.induct)
  case r_new
  show ?case by (simp add: consistent_def NewStorage_def)
next
  case (r_createTopic s name)
  then show ?case by (simp add: consistent_def CreateTopic_def Let_def)
next
  case (r_getTopic s name)
  then show ?case by (simp add: GetTopic_def split: option.splits)
next
  case (r_deleteTopic s name)
  then show ?case by (simp add: consistent_def DeleteTopic_def)
next
  case (r_createSubscription s name topicName)
  then show ?case by (auto simp add: consistent_def CreateSubscription_def Let_def)
next
  case (r_getSubscription s name)
  then show ?case by (simp add: GetSubscription_def split: option.splits)
next
  case (r_deleteSubscription s name)
  then show ?case by (auto simp add: consistent_def DeleteSubscription_def)
next
  case (r_publish s order topicName msgs uuid nowStr)
  then show ?case by (simp add: Publish_consistent)
next
  case (r_pull s name maxMessages now testing)
  then show ?case by (simp add: Pull_consistent)
next
  case (r_acknowledge s name ackIDs now)
  then show ?case by (simp add: Acknowledge_consistent)
qed

lemma reachable_stSub: "reachable stSub"
  unfolding stSub_def stTopic_def
  by (intro reachable.intros)

lemma reachable_stPublished: "reachable stPublished"
  unfolding stPublished_def
  by (rule r_publish[OF reachable_stSub])
     (simp_all add: stSub_def stTopic_def CreateSubscription_def CreateTopic_def NewStorage_def Let_def)

lemma reachable_stPulled: "reachable stPulled"
  unfolding stPulled_def by (rule r_pull[OF reachable_stPublished])

text \<open>
  Claim C9. In every storage that calls of the methods produce from \<^verbatim>\<open>NewStorage()\<close>, a
  subscription name is registered if and only if it has a queue record, and no call of
  \<^verbatim>\<open>Acknowledge\<close> on such a storage ends in the missing-queue error.
\<close>

theorem reachable_queue_iff_registered:
  assumes "reachable s"
  shows "(\<forall>name. subscriptions s name \<noteq> None \<longleftrightarrow> messages s name \<noteq> None) \<and>
         (\<forall>name ackIDs now.
            fst (Acknowledge s name ackIDs now) \<noteq> Inl ErrNoMessagesForSubscription)"
proof -
  have c: "\<forall>name. subscriptions s name \<noteq> None \<longleftrightarrow> messages s name \<noteq> None"
    using reachable_consistent[OF assms] by (simp add: consistent_def)
  have "fst (Acknowledge s name ackIDs now) \<noteq> Inl ErrNoMessagesForSubscription"
    for name ackIDs now
    using c[rule_format, of name]
    by (auto simp add: Acknowledge_def split: option.splits)
  with c show ?thesis by blast
qed

theorem reachable_queue_iff_registered_witness:
  "messages stPulled ''s'' \<noteq> None \<and> messages stPulled ''r'' = None \<and>
   subscriptions stPulled ''r'' = None \<and>
   fst (Acknowledge stPulled ''s'' [''u''] 2) \<noteq> Inl ErrNoMessagesForSubscription"
proof -
  have r: "subscriptions stPulled ''r'' = None"
    by (simp add: stPulled_def Pull_def stPublished_def Publish_def stSub_def stTopic_def
        CreateSubscription_def CreateTopic_def NewStorage_def Let_def split: option.splits)
  note t = reachable_queue_iff_registered[OF reachable_stPulled]
  have "messages stPulled ''r'' = None"
    using t[THEN conjunct1, rule_format, of "''r''"] r by simp
  then show ?thesis
    using t r by (simp add: stPulled_simps)
qed

text \<open>
  Claim C4. \<^verbatim>\<open>Acknowledge\<close> fails with \<open>ErrSubscriptionNotFound\<close> on an unregistered
  subscription and with the missing-queue error on a registered subscription without a
  queue record; it fails in no other case, and a failing call leaves the storage
  unchanged. On a registered subscription whose queue \<open>q\<close> holds pending leases only,
  as every queue of a reachable storage does (last part of the statement), the call
  succeeds whatever the tokens are; the loop writes the acknowledgement timestamp
  \<open>now\<close> on exactly the leases whose token is in the list, and the queue it leaves is
  \<open>q\<close> without exactly those leases, in the same order. Tokens that match no lease have
  no effect. Nothing else in the storage changes.
\<close>

theorem Acknowledge_prunes_listed:
  "(subscriptions s name = None \<longrightarrow>
      Acknowledge s name ackIDs now = (Inl ErrSubscriptionNotFound, s)) \<and>
   (subscriptions s name \<noteq> None \<and> messages s name = None \<longrightarrow>
      Acknowledge s name ackIDs now = (Inl ErrNoMessagesForSubscription, s)) \<and>
   ((\<exists>e. fst (Acknowledge s name ackIDs now) = Inl e) \<longleftrightarrow>
      subscriptions s name = None \<or> messages s name = None) \<and>
   ((\<exists>e. fst (Acknowledge s name ackIDs now) = Inl e) \<longrightarrow>
      snd (Acknowledge s name ackIDs now) = s) \<and>
   (\<forall>q. subscriptions s name \<noteq> None \<and> messages s name = Some q \<and>
        (\<forall>msg \<in> set q. AckedAt msg = None) \<longrightarrow>
      Acknowledge s name ackIDs now =
        (Inr (), s\<lparr>messages := (messages s)(name \<mapsto>
                     filter (\<lambda>msg. AckID msg \<notin> set ackIDs) q)\<rparr>) \<and>
      (\<forall>msg \<in> set q.
         (AckID msg \<in> set ackIDs \<longrightarrow> AckedAt (markAcked now ackIDs msg) = Some now) \<and>
         (AckID msg \<notin> set ackIDs \<longrightarrow> markAcked now ackIDs msg = msg)) \<and>
      (set ackIDs \<inter> AckID ` set q = {} \<longrightarrow> Acknowledge s name ackIDs now = (Inr (), s))) \<and>
   (reachable s \<longrightarrow> (\<forall>q. messages s name = Some q \<longrightarrow> (\<forall>msg \<in> set q. AckedAt msg = None)))"
proof (intro conjI allI impI)
  show "\<forall>msg \<in> set q. AckedAt msg = None" if "reachable s" and "messages s name = Some q" for q
    using reachable_consistent[OF that(1)] that(2) by (simp add: consistent_def)
  show "Acknowledge s name ackIDs now = (Inl ErrSubscriptionNotFound, s)"
    if "subscriptions s name = None"
    using that by (simp add: Acknowledge_def)
  show "Acknowledge s name ackIDs now = (Inl ErrNoMessagesForSubscription, s)"
    if "subscriptions s name \<noteq> None \<and> messages s name = None"
    using that by (auto simp add: Acknowledge_def)
  show "(\<exists>e. fst (Acknowledge s name ackIDs now) = Inl e) \<longleftrightarrow>
      subscriptions s name = None \<or> messages s name = None"
    by (auto simp add: Acknowledge_def split: option.splits)
  show "snd (Acknowledge s name ackIDs now) = s"
    if "\<exists>e. fst (Acknowledge s name ackIDs now) = Inl e"
    using that by (auto simp add: Acknowledge_def split: option.splits if_splits)
next
  fix q
  assume h: "subscriptions s name \<noteq> None \<and> messages s name = Some q \<and>
      (\<forall>msg \<in> set q. AckedAt msg = None)"
  then have loop: "ackLoop now ackIDs q = filter (\<lambda>msg. AckID msg \<notin> set ackIDs) q"
    by (simp add: ackLoop_pending)
  show ok: "Acknowledge s name ackIDs now =
      (Inr (), s\<lparr>messages := (messages s)(name \<mapsto> filter (\<lambda>msg. AckID msg \<notin> set ackIDs) q)\<rparr>)"
    using h loop by (auto simp add: Acknowledge_def)
  show "\<forall>msg \<in> set q.
         (AckID msg \<in> set ackIDs \<longrightarrow> AckedAt (markAcked now ackIDs msg) = Some now) \<and>
         (AckID msg \<notin> set ackIDs \<longrightarrow> markAcked now ackIDs msg = msg)"
    by (simp add: markAcked_def)
  show "Acknowledge s name ackIDs now = (Inr (), s)" if "set ackIDs \<inter> AckID ` set q = {}"
  proof -
    have "filter (\<lambda>msg. AckID msg \<notin> set ackIDs) q = q"
      using that by (auto simp add: filter_id_conv)
    moreover have "(messages s)(name \<mapsto> q) = messages s"
      using h by (simp add: map_upd_triv)
    ultimately show ?thesis using ok by simp
  qed
qed

theorem Acknowledge_prunes_listed_witness:
  "Acknowledge NewStorage ''s'' [''u''] 2 = (Inl ErrSubscriptionNotFound, NewStorage) \<and>
   messages (snd (Acknowledge stPulled ''s'' [''u''] 2)) ''s'' = Some [] \<and>
   fst (Acknowledge stPulled ''s'' [''x''] 2) = Inr () \<and>
   messages (snd (Acknowledge stPulled ''s'' [''x''] 2)) ''s'' = messages stPulled ''s''"
proof -
  let ?m = "(newInternalMessage exMessage [] ''2026-01-01T00:00:00Z'' ''u'')\<lparr>DeadlineAt := 50000001\<rparr>"
  have a: "subscriptions NewStorage ''s'' = None" by (simp add: NewStorage_def)
  have b: "subscriptions stPulled ''s'' \<noteq> None \<and> messages stPulled ''s'' = Some [?m] \<and>
      (\<forall>msg \<in> set [?m]. AckedAt msg = None)"
    by (simp add: stPulled_simps newInternalMessage_def)
  have c: "AckID ?m = ''u''" by (simp add: newInternalMessage_def)
  show ?thesis
    using Acknowledge_prunes_listed[of NewStorage "''s''" "[''u'']" 2]
      Acknowledge_prunes_listed[of stPulled "''s''" "[''u'']" 2]
      Acknowledge_prunes_listed[of stPulled "''s''" "[''x'']" 2] a b c
    by simp
qed

text \<open>
  Claim C5. On a registered subscription, acknowledging the token \<open>t\<close> twice in
  succession, at any two times, leaves the storage that the first call leaves, and the
  second call returns what the first returned. When the subscription has its queue
  record, as it has in every reachable storage, both calls succeed: the second call is
  a no-op, not an error.
\<close>

theorem Acknowledge_twice:
  assumes "subscriptions s name \<noteq> None"
    and "s1 = snd (Acknowledge s name [t] now)"
  shows "snd (Acknowledge s1 name [t] now2) = s1 \<and>
         fst (Acknowledge s1 name [t] now2) = fst (Acknowledge s name [t] now) \<and>
         (reachable s \<or> messages s name \<noteq> None \<longrightarrow>
            fst (Acknowledge s name [t] now) = Inr () \<and>
            Acknowledge s1 name [t] now2 = (Inr (), s1))"
proof (cases "messages s name")
  case None
  have "\<not> reachable s"
  proof
    assume "reachable s"
    then have "subscriptions s name \<noteq> None \<longleftrightarrow> messages s name \<noteq> None"
      using reachable_consistent[of s] by (simp add: consistent_def)
    then show False using None assms(1) by simp
  qed
  moreover have "s1 = s" and "Acknowledge s name [t] now2 = (Inl ErrNoMessagesForSubscription, s)"
    and "Acknowledge s name [t] now = (Inl ErrNoMessagesForSubscription, s)"
    using None assms by (auto simp add: Acknowledge_def)
  ultimately show ?thesis using None by simp
next
  case (Some q)
  have s1: "s1 = s\<lparr>messages := (messages s)(name \<mapsto> ackLoop now [t] q)\<rparr>"
    using assms Some by (auto simp add: Acknowledge_def)
  have "Acknowledge s1 name [t] now2 =
      (Inr (), s1\<lparr>messages := (messages s1)(name \<mapsto> ackLoop now2 [t] (ackLoop now [t] q))\<rparr>)"
    using assms(1) s1 by (auto simp add: Acknowledge_def)
  moreover have "(messages s1)(name \<mapsto> ackLoop now [t] q) = messages s1"
    using s1 by simp
  ultimately have second: "Acknowledge s1 name [t] now2 = (Inr (), s1)"
    by (simp add: ackLoop_idem)
  have first: "fst (Acknowledge s name [t] now) = Inr ()"
    using assms(1) Some by (auto simp add: Acknowledge_def)
  show ?thesis using first second by simp
qed

theorem Acknowledge_twice_witness:
  "fst (Acknowledge stPulled ''s'' [''u''] 2) = Inr () \<and>
   Acknowledge (snd (Acknowledge stPulled ''s'' [''u''] 2)) ''s'' [''u''] 3 =
     (Inr (), snd (Acknowledge stPulled ''s'' [''u''] 2))"
  using Acknowledge_twice[of stPulled "''s''" _ "''u''" 2 3, OF _ refl]
  by (simp add: stPulled_simps)

lemma tokenOffset_distinct:
  assumes "distinct order" and "a \<in> set order" and "b \<in> set order" and "a \<noteq> b"
    and "boundTo subs topicName a" and "boundTo subs topicName b"
  shows "length (filter (boundTo subs topicName) (takeWhile (\<lambda>k. k \<noteq> a) order)) \<noteq>
         length (filter (boundTo subs topicName) (takeWhile (\<lambda>k. k \<noteq> b) order))"
  using assms(1,2,3)
proof (induction order)
  case Nil
  then show ?case by simp
next
  case (Cons k ks)
  show ?case
  proof (cases "k = a \<or> k = b")
    case True
    then show ?thesis using assms(4,5,6) by auto
  next
    case False
    then show ?thesis using Cons by auto
  qed
qed

lemma token_index_inj:
  fixes n :: nat
  assumes "j1 < n" and "j2 < n" and "n + n * i1 + j1 = n + n * i2 + j2"
  shows "i1 = i2 \<and> j1 = j2"
proof -
  have e: "n * i1 + j1 = n * i2 + j2" using assms(3) by simp
  have "(n * i1 + j1) div n = i1" "(n * i2 + j2) div n = i2"
    using assms(1,2) by simp_all
  then have "i1 = i2" using e by simp
  then show ?thesis using e by simp
qed

lemma newLeases_nth:
  "j < length msgs \<Longrightarrow>
   newLeases uuid now mids c msgs ! j = newInternalMessage (msgs ! j) (mids ! j) now (uuid (c + j))"
  by (simp add: newLeases_def)

lemma newLeases_length: "length (newLeases uuid now mids c msgs) = length msgs"
  by (simp add: newLeases_def)

lemma Acknowledge_other:
  "other \<noteq> name \<Longrightarrow> messages (snd (Acknowledge s name ackIDs now)) other = messages s other"
  by (simp add: Acknowledge_def split: option.splits)

text \<open>
  Claim C3. Let \<open>s\<close> be a consistent storage (every reachable storage is), \<open>topicName\<close> a
  registered topic, and let \<^verbatim>\<open>Publish\<close> visit the subscription map in the order \<open>order\<close>.
  The call returns one identifier per message, \<open>uuid 0, \<dots>, uuid (n - 1)\<close>, and leaves
  topics and subscriptions as they are. The queue of every subscription bound to the
  topic becomes the old queue followed by one new lease per message, in batch order; the
  \<open>j\<close>-th of them carries the \<open>j\<close>-th message with the identifier \<open>uuid j\<close>, the same in
  every subscription, a token drawn for this copy alone, no acknowledgement timestamp
  and the zero time as deadline, so that it is visible at every later time. When the
  identifiers drawn are pairwise distinct, so are the tokens of all the copies. The
  queue of a subscription not bound to the topic is unchanged, and with no bound
  subscription the whole storage is unchanged. An \<^verbatim>\<open>Acknowledge\<close> on one subscription
  afterwards leaves the queue of every other subscription as it is.
\<close>

theorem Publish_fan_out:
  assumes "topics s topicName \<noteq> None" and "consistent s"
    and "distinct order" and "set order = dom (subscriptions s)"
    and "s' = snd (Publish s topicName msgs uuid nowStr order)"
    and "off = tokenOffset (subscriptions s) topicName order (length msgs)"
  shows "fst (Publish s topicName msgs uuid nowStr order) = Inr (map uuid [0..<length msgs]) \<and>
         length (map uuid [0..<length msgs]) = length msgs \<and>
         topics s' = topics s \<and> subscriptions s' = subscriptions s \<and>
         (\<forall>name. boundTo (subscriptions s) topicName name \<longrightarrow>
            (\<exists>q new. messages s name = Some q \<and> messages s' name = Some (q @ new) \<and>
               length new = length msgs \<and>
               (\<forall>j < length msgs.
                  new ! j = newInternalMessage (msgs ! j) (uuid j) nowStr (uuid (off name + j)) \<and>
                  AckedAt (new ! j) = None \<and> DeadlineAt (new ! j) = zeroTime \<and>
                  (\<forall>now > zeroTime. visible now (new ! j)) \<and>
                  MessageID (Message (new ! j)) = uuid j \<and>
                  Data (Message (new ! j)) = pub_Data (msgs ! j) \<and>
                  Attributes (Message (new ! j)) = pub_Attributes (msgs ! j) \<and>
                  AckID (new ! j) = uuid (off name + j)))) \<and>
         (inj uuid \<longrightarrow>
            (\<forall>name1 name2 j1 j2.
               boundTo (subscriptions s) topicName name1 \<and>
               boundTo (subscriptions s) topicName name2 \<and>
               j1 < length msgs \<and> j2 < length msgs \<and> (name1, j1) \<noteq> (name2, j2) \<longrightarrow>
               uuid (off name1 + j1) \<noteq> uuid (off name2 + j2))) \<and>
         (\<forall>name. \<not> boundTo (subscriptions s) topicName name \<longrightarrow>
            messages s' name = messages s name) \<and>
         ((\<forall>name. \<not> boundTo (subscriptions s) topicName name) \<longrightarrow> s' = s) \<and>
         (\<forall>name other ackIDs now. other \<noteq> name \<longrightarrow>
            messages (snd (Acknowledge s' name ackIDs now)) other = messages s' other)"
proof -
  let ?n = "length msgs"
  let ?b = "boundTo (subscriptions s) topicName"
  have nm: "\<forall>k sub. subscriptions s k = Some sub \<longrightarrow> sub_Name sub = k"
    using assms(2) by (simp add: consistent_def)
  note eq = Publish_eq[OF assms(1) nm assms(3), of msgs uuid nowStr]
  have inord: "name \<in> set order" if "?b name" for name
    using that assms(4) by (auto simp add: boundTo_def split: option.splits)
  have r: "fst (Publish s topicName msgs uuid nowStr order) = Inr (map uuid [0..<length msgs])"
    by (simp add: eq)
  have ms': "messages s' name =
      (if ?b name \<and> msgs \<noteq> []
       then Some (queueOf (messages s) name @
                  newLeases uuid nowStr (map uuid [0..<?n]) (off name) msgs)
       else messages s name)" for name
    using inord[of name] by (auto simp add: assms(5,6) eq)
  have fr: "topics s' = topics s \<and> subscriptions s' = subscriptions s"
    by (simp add: assms(5) eq)
  have bound: "\<exists>q new. messages s name = Some q \<and> messages s' name = Some (q @ new) \<and>
               length new = length msgs \<and>
               (\<forall>j < length msgs.
                  new ! j = newInternalMessage (msgs ! j) (uuid j) nowStr (uuid (off name + j)) \<and>
                  AckedAt (new ! j) = None \<and> DeadlineAt (new ! j) = zeroTime \<and>
                  (\<forall>now > zeroTime. visible now (new ! j)) \<and>
                  MessageID (Message (new ! j)) = uuid j \<and>
                  Data (Message (new ! j)) = pub_Data (msgs ! j) \<and>
                  Attributes (Message (new ! j)) = pub_Attributes (msgs ! j) \<and>
                  AckID (new ! j) = uuid (off name + j))"
    if b: "?b name" for name
  proof -
    have "subscriptions s name \<noteq> None"
      using b by (auto simp add: boundTo_def split: option.splits)
    then obtain q where q: "messages s name = Some q"
      using assms(2) by (auto simp add: consistent_def)
    let ?new = "newLeases uuid nowStr (map uuid [0..<?n]) (off name) msgs"
    have "messages s' name = Some (q @ ?new)"
      using ms'[of name] b q by (cases "msgs = []") (simp_all add: queueOf_def newLeases_def)
    moreover have "length ?new = length msgs" by (rule newLeases_length)
    moreover have "\<forall>j < length msgs.
        ?new ! j = newInternalMessage (msgs ! j) (uuid j) nowStr (uuid (off name + j)) \<and>
        AckedAt (?new ! j) = None \<and> DeadlineAt (?new ! j) = zeroTime \<and>
        (\<forall>now > zeroTime. visible now (?new ! j)) \<and>
        MessageID (Message (?new ! j)) = uuid j \<and>
        Data (Message (?new ! j)) = pub_Data (msgs ! j) \<and>
        Attributes (Message (?new ! j)) = pub_Attributes (msgs ! j) \<and>
        AckID (?new ! j) = uuid (off name + j)"
      by (simp add: newLeases_nth newInternalMessage_def visible_def)
    ultimately show ?thesis using q by blast
  qed
  have dist: "uuid (off name1 + j1) \<noteq> uuid (off name2 + j2)"
    if "inj uuid" and h: "?b name1 \<and> ?b name2 \<and> j1 < ?n \<and> j2 < ?n \<and> (name1, j1) \<noteq> (name2, j2)"
    for name1 name2 j1 j2
  proof
    assume "uuid (off name1 + j1) = uuid (off name2 + j2)"
    then have e: "off name1 + j1 = off name2 + j2"
      using \<open>inj uuid\<close> by (simp add: inj_eq)
    let ?i1 = "length (filter ?b (takeWhile (\<lambda>k. k \<noteq> name1) order))"
    let ?i2 = "length (filter ?b (takeWhile (\<lambda>k. k \<noteq> name2) order))"
    have "?n + ?n * ?i1 + j1 = ?n + ?n * ?i2 + j2"
      using e by (simp add: assms(6) tokenOffset_def)
    then have ij: "?i1 = ?i2 \<and> j1 = j2"
      using h token_index_inj[of j1 ?n j2 ?i1 ?i2] by simp
    then have "name1 \<noteq> name2" using h by auto
    then have "?i1 \<noteq> ?i2"
      using h inord tokenOffset_distinct[OF assms(3), of name1 name2 "subscriptions s" topicName]
      by simp
    then show False using ij by simp
  qed
  have unb: "messages s' name = messages s name" if "\<not> ?b name" for name
    using that ms'[of name] by simp
  have none: "s' = s" if "\<forall>name. \<not> ?b name"
  proof -
    have "messages s' = messages s" using that ms' by (simp add: fun_eq_iff)
    then show ?thesis by (simp add: assms(5) eq)
  qed
  have ack: "messages (snd (Acknowledge s' name ackIDs now)) other = messages s' other"
    if "other \<noteq> name" for name other ackIDs now
    using that by (rule Acknowledge_other)
  show ?thesis
    using r fr bound dist unb none ack by (intro conjI allI impI) (simp_all; blast)+
qed

lemma stTwoSubs_simps:
  "topics stTwoSubs ''t'' = Some \<lparr>topic_Name = ''t''\<rparr>"
  "subscriptions stTwoSubs =
     [''s'' \<mapsto> \<lparr>sub_Name = ''s'', sub_Topic = ''t''\<rparr>, ''r'' \<mapsto> \<lparr>sub_Name = ''r'', sub_Topic = ''t''\<rparr>]"
  "messages stTwoSubs ''s'' = Some []"
  "messages stTwoSubs ''r'' = Some []"
  by (simp_all add: stTwoSubs_def stSub_def stTopic_def CreateSubscription_def CreateTopic_def
      NewStorage_def Let_def)

lemma reachable_stTwoSubs: "reachable stTwoSubs"
  unfolding stTwoSubs_def by (rule r_createSubscription[OF reachable_stSub])

lemma inj_exUuid: "inj exUuid"
proof (rule injI)
  fix x y assume "exUuid x = exUuid y"
  then have "length (exUuid x) = length (exUuid y)" by simp
  then show "x = y" by (simp add: exUuid_def)
qed

theorem Publish_fan_out_witness:
  "fst (Publish stTwoSubs ''t'' [exMessage] exUuid ''now'' [''s'', ''r'']) = Inr [exUuid 0] \<and>
   messages (snd (Publish stTwoSubs ''t'' [exMessage] exUuid ''now'' [''s'', ''r''])) ''s'' =
     Some [newInternalMessage exMessage (exUuid 0) ''now'' (exUuid 1)] \<and>
   messages (snd (Publish stTwoSubs ''t'' [exMessage] exUuid ''now'' [''s'', ''r''])) ''r'' =
     Some [newInternalMessage exMessage (exUuid 0) ''now'' (exUuid 2)] \<and>
   exUuid 1 \<noteq> exUuid 2"
proof -
  let ?s' = "snd (Publish stTwoSubs ''t'' [exMessage] exUuid ''now'' [''s'', ''r''])"
  let ?off = "tokenOffset (subscriptions stTwoSubs) ''t'' [''s'', ''r''] (length [exMessage])"
  have t: "topics stTwoSubs ''t'' \<noteq> None" by (simp add: stTwoSubs_simps)
  have c: "consistent stTwoSubs" by (rule reachable_consistent[OF reachable_stTwoSubs])
  have d: "distinct [''s'', ''r'']" by simp
  have o: "set [''s'', ''r''] = dom (subscriptions stTwoSubs)"
    by (auto simp add: stTwoSubs_simps)
  note w = Publish_fan_out[OF t c d o refl refl, of "[exMessage]" exUuid "''now''"]
  have bs: "boundTo (subscriptions stTwoSubs) ''t'' ''s''"
    and br: "boundTo (subscriptions stTwoSubs) ''t'' ''r''"
    by (simp_all add: boundTo_def stTwoSubs_simps)
  have os: "?off ''s'' = 1" and or: "?off ''r'' = 2"
    using bs by (simp_all add: tokenOffset_def)
  have one: "new = [x]" if "length new = length [exMessage]" and "new ! 0 = x"
    for new :: "InternalMessage list" and x
    using that by (cases new) simp_all
  have "\<exists>q new. messages stTwoSubs ''s'' = Some q \<and> messages ?s' ''s'' = Some (q @ new) \<and>
      length new = length [exMessage] \<and>
      new ! 0 = newInternalMessage exMessage (exUuid 0) ''now'' (exUuid (?off ''s'' + 0))"
    using w bs by fastforce
  then have s: "messages ?s' ''s'' = Some [newInternalMessage exMessage (exUuid 0) ''now'' (exUuid 1)]"
    using os by (auto simp add: stTwoSubs_simps intro!: one)
  have "\<exists>q new. messages stTwoSubs ''r'' = Some q \<and> messages ?s' ''r'' = Some (q @ new) \<and>
      length new = length [exMessage] \<and>
      new ! 0 = newInternalMessage exMessage (exUuid 0) ''now'' (exUuid (?off ''r'' + 0))"
    using w br by fastforce
  then have r: "messages ?s' ''r'' = Some [newInternalMessage exMessage (exUuid 0) ''now'' (exUuid 2)]"
    using or by (auto simp add: stTwoSubs_simps intro!: one)
  have "exUuid (?off ''s'' + 0) \<noteq> exUuid (?off ''r'' + 0)"
    using w inj_exUuid bs br by fastforce
  then have ne: "exUuid 1 \<noteq> exUuid 2" using os or by simp
  have "fst (Publish stTwoSubs ''t'' [exMessage] exUuid ''now'' [''s'', ''r'']) = Inr [exUuid 0]"
    using w by simp
  then show ?thesis using s r ne by simp
qed

section \<open>ModifyAckDeadline\<close>





end
